theory Spec2Isabelle
  imports Complex_Main
begin

section \<open>Numbers\<close>

text \<open>
  The dashboard computes on JavaScript numbers, which are binary64 doubles. Two models of
  them are used. The counter \<open>cycle\<close> is a \<^typ>\<open>nat\<close> and the generator as a whole is
  computed on exact reals: for the counter and for \<open>rpm\<close> the exact value is the value of
  the double as long as the counter is below \<open>2^53\<close>, which it meets only after as many
  calls. The temperature depends on the last bit of the double, so the line that computes
  it is modelled a second time, \<open>temp_double\<close> below, with every operation rounded to the
  nearest double by \<open>fl\<close>. \<open>NaN\<close>, the infinities and overflow are outside both models.
\<close>

definition Math_round :: "real \<Rightarrow> real" where
  \<comment> \<open>\<open>Math.round(x)\<close>: the nearest integer, a tie going up.\<close>
  "Math_round x = of_int \<lfloor>x + 1 / 2\<rfloor>"

definition Math_max :: "real \<Rightarrow> real \<Rightarrow> real" where
  "Math_max a b = (if a < b then b else a)"

definition toFixed :: "real \<Rightarrow> nat \<Rightarrow> real" where
  \<comment> \<open>\<open>x.toFixed(f)\<close>, as the number the printed decimal stands for: the sign is set
      apart, a magnitude from \<open>10^21\<close> on is printed as it is, a smaller one as the nearest
      multiple of \<open>10^-f\<close>, the larger of two.\<close>
  "toFixed x f =
     (let a = \<bar>x\<bar>;
          m = (if 10 ^ 21 \<le> a then a else of_int \<lfloor>a * 10 ^ f + 1 / 2\<rfloor> / 10 ^ f)
      in if x < 0 then - m else m)"

subsection \<open>Rounding to the nearest double\<close>

text \<open>
  A double is an integer of at most 53 bits times a power of two that is at least
  \<open>2^-1074\<close>. Every arithmetic operation returns the double nearest to the exact result,
  a tie going to the even integer.
\<close>

fun bitlength :: "nat \<Rightarrow> nat" where
  \<comment> \<open>the number of binary digits of \<open>n\<close>\<close>
  "bitlength n = (if n = 0 then 0 else Suc (bitlength (n div 2)))"

declare bitlength.simps [simp del]

definition exponent :: "real \<Rightarrow> int" where
  \<comment> \<open>the \<open>e\<close> with \<open>2^e \<le> |x| < 2^(e+1)\<close>, for \<open>x\<close> other than 0\<close>
  "exponent x =
     (let a = \<bar>x\<bar>
      in if 1 \<le> a then int (bitlength (nat \<lfloor>a\<rfloor>)) - 1
         else - int (bitlength (nat (\<lceil>1 / a\<rceil> - 1))))"

definition rne :: "real \<Rightarrow> int" where
  \<comment> \<open>the nearest integer, a tie going to the even one\<close>
  "rne y =
     (let n = \<lfloor>y\<rfloor>; d = y - of_int n
      in if d < 1 / 2 then n else if 1 / 2 < d then n + 1 else if even n then n else n + 1)"

definition ulp :: "real \<Rightarrow> real" where
  \<comment> \<open>the distance between neighbouring doubles at \<open>x\<close>\<close>
  "ulp x = 2 powi (max (exponent x - 52) (- 1074))"

definition fl :: "real \<Rightarrow> real" where
  \<comment> \<open>the double nearest to \<open>x\<close>\<close>
  "fl x = of_int (rne (x / ulp x)) * ulp x"

section \<open>The sensor value generator\<close>

text \<open>
  \<open>makeRandomDrillValues\<close> reads and writes the module variable \<open>cycle\<close> and calls
  \<open>Math.random()\<close> four times, in the order temp, load, vibration, depth. The variable
  is passed in and returned; the four draws are an argument. The fields are computed on
  exact reals here: \<open>rpm\<close> and the counter are those of the code; the four rounded fields
  follow the formulas of the code without the rounding of its double operations, so they
  can differ from the values of the code in the last printed decimal.
\<close>

record draws =
  random_temp :: real
  random_load :: real
  random_vibration :: real
  random_depth :: real

definition random_range :: "draws \<Rightarrow> bool" where
  \<comment> \<open>What \<open>Math.random()\<close> can return: a number from 0 up to, not including, 1.\<close>
  "random_range d \<longleftrightarrow>
     0 \<le> random_temp d \<and> random_temp d < 1 \<and> 0 \<le> random_load d \<and> random_load d < 1 \<and>
     0 \<le> random_vibration d \<and> random_vibration d < 1 \<and>
     0 \<le> random_depth d \<and> random_depth d < 1"

record drill_values =
  temp :: real
  rpm :: real
  load :: real
  vibration :: real
  depth :: real

definition initial_cycle :: nat where
  \<comment> \<open>\<open>let cycle = 0;\<close>\<close>
  "initial_cycle = 0"

definition degradationFactor :: "nat \<Rightarrow> real" where
  \<comment> \<open>\<open>cycle / 1000\<close>, of the counter already incremented\<close>
  "degradationFactor cycle = real cycle / 1000"

definition makeRandomDrillValues :: "nat \<Rightarrow> draws \<Rightarrow> drill_values \<times> nat" where
  "makeRandomDrillValues cycle0 d =
     (let cycle = cycle0 + 1;
          df = degradationFactor cycle
      in (\<lparr> temp = toFixed (20 + random_temp d * 60 + df * 10) 2,
            rpm = Math_round (5000 - df * 1000),
            load = toFixed (random_load d * 30 + df * 5) 2,
            vibration = toFixed (random_vibration d * 10 + df * 2) 3,
            depth = toFixed (random_depth d * 50) 2 \<rparr>, cycle))"

fun generate :: "nat \<Rightarrow> draws list \<Rightarrow> drill_values list \<times> nat" where
  \<comment> \<open>One call after the other, each on the counter the call before left.\<close>
  "generate cycle [] = ([], cycle)"
| "generate cycle (d # ds) =
     (case makeRandomDrillValues cycle d of (v, cycle1) \<Rightarrow>
        (case generate cycle1 ds of (vs, cycle2) \<Rightarrow> (v # vs, cycle2)))"

definition temp_double :: "nat \<Rightarrow> real \<Rightarrow> real" where
  \<comment> \<open>The \<open>temp\<close> field in double arithmetic, for the counter \<open>cycle\<close> already incremented
      and the draw \<open>r\<close>: \<open>+(20 + r * 60 + degradationFactor * 10).toFixed(2)\<close>. \<open>toFixed\<close>
      prints the nearest decimal of the double, the unary plus reads it back as a double.\<close>
  "temp_double cycle r =
     (let df = fl (real cycle / 1000)
      in fl (toFixed (fl (fl (20 + fl (r * 60)) + fl (df * 10))) 2))"

section \<open>The feature window\<close>

text \<open>
  A Firestore document is an object: a finite map from field names to values. A field
  that is absent reads as \<open>undefined\<close>; one that is present holds \<open>null\<close> or a number.
\<close>

datatype js_value = Null | Num real

type_synonym js_object = "string \<rightharpoonup> js_value"

datatype js_error = TypeError

definition nullish :: "js_value option \<Rightarrow> real \<Rightarrow> real" where
  \<comment> \<open>\<open>v ?? d\<close>: the default for \<open>undefined\<close> and \<open>null\<close>, the value otherwise\<close>
  "nullish v d = (case v of None \<Rightarrow> d | Some Null \<Rightarrow> d | Some (Num x) \<Rightarrow> x)"

definition index :: "'a list \<Rightarrow> nat \<Rightarrow> 'a option" where
  \<comment> \<open>\<open>xs[i]\<close>: \<open>undefined\<close> out of range\<close>
  "index xs i = (if i < length xs then Some (xs ! i) else None)"

definition temp_of :: "js_object option \<Rightarrow> js_error + js_value option" where
  \<comment> \<open>\<open>x.temp\<close>: reading a property of \<open>undefined\<close> throws\<close>
  "temp_of x = (case x of None \<Rightarrow> Inl TypeError | Some r \<Rightarrow> Inr (r ''temp''))"

definition sequence_row :: "js_object list \<Rightarrow> js_object \<Rightarrow> nat \<Rightarrow> js_error + real list" where
  \<comment> \<open>the callback of \<open>recentRecords.map((r, i) => ...)\<close>\<close>
  "sequence_row recentRecords r i =
     (let temp = nullish (r ''temp'') 0;
          rpm = nullish (r ''rpm'') 0;
          load = nullish (r ''load'') 0;
          vibration = nullish (r ''vibration'') 0;
          depth = nullish (r ''depth'') 0
      in case (if 0 < i
               then (case temp_of (index recentRecords (i - 1)) of
                       Inl e \<Rightarrow> Inl e
                     | Inr v \<Rightarrow> Inr (nullish v 0))
               else Inr temp) of
           Inl e \<Rightarrow> Inl e
         | Inr prevTemp \<Rightarrow>
             (let tempChange = temp - prevTemp;
                  torqueEst = (load * 9.55) / Math_max rpm 1
              in Inr [temp, rpm, load, vibration, depth, tempChange, torqueEst]))"

fun map_from :: "('a \<Rightarrow> nat \<Rightarrow> js_error + 'b) \<Rightarrow> nat \<Rightarrow> 'a list \<Rightarrow> js_error + 'b list" where
  \<comment> \<open>\<open>Array.prototype.map\<close> from index \<open>i\<close> on: the first callback that throws ends it\<close>
  "map_from f i [] = Inr []"
| "map_from f i (x # xs) =
     (case f x i of
        Inl e \<Rightarrow> Inl e
      | Inr y \<Rightarrow> (case map_from f (Suc i) xs of Inl e \<Rightarrow> Inl e | Inr ys \<Rightarrow> Inr (y # ys)))"

definition sequence :: "js_object list \<Rightarrow> js_error + real list list" where
  "sequence recentRecords = map_from (sequence_row recentRecords) 0 recentRecords"

definition sequenceForEst :: "real list list \<Rightarrow> real list" where
  \<comment> \<open>\<open>sequence.map(row => row.slice(1)).flat()\<close>\<close>
  "sequenceForEst rows = concat (map (drop 1) rows)"

section \<open>The component state and its handlers\<close>

text \<open>
  The state the handlers below read and write: the module variable \<open>cycle\<close>, the
  \<open>useState\<close> cells \<open>records\<close>, \<open>status\<close> and \<open>autoSending\<close>, the \<open>useRef\<close> cell
  \<open>autoRef\<close> (\<open>None\<close> is \<open>null\<close>), and the interval handles that are running in the
  browser.
\<close>

record app_state =
  cycle :: nat
  records :: "js_object list"
  status :: string
  autoSending :: bool
  autoRef :: "nat option"
  intervals :: "nat list"

definition initial_state :: app_state where
  "initial_state =
     \<lparr> cycle = initial_cycle, records = [], status = ''idle'', autoSending = False,
       autoRef = None, intervals = [] \<rparr>"

definition truthy :: "nat option \<Rightarrow> bool" where
  \<comment> \<open>\<open>if (autoRef.current)\<close>: \<open>null\<close> and the number 0 are falsy\<close>
  "truthy h = (case h of None \<Rightarrow> False | Some n \<Rightarrow> n \<noteq> 0)"

datatype js_thrown = Thrown "string option" string
  \<comment> \<open>what a rejected write throws: its \<open>message\<close> property (\<open>None\<close> when it has none)
      and the string the value itself converts to\<close>

definition sendRandomToFirestore :: "app_state \<Rightarrow> draws \<Rightarrow> js_thrown option \<Rightarrow> app_state" where
  \<comment> \<open>The third argument is how \<open>addDoc\<close> ends: \<open>None\<close> when it resolves, the value it
      throws when it rejects. \<open>err.message || err\<close> is the message unless it is missing or
      empty.\<close>
  "sendRandomToFirestore s d outcome =
     (case makeRandomDrillValues (cycle s) d of (values, cycle1) \<Rightarrow>
        (case outcome of
           None \<Rightarrow> s\<lparr>cycle := cycle1, status := ''sent''\<rparr>
         | Some (Thrown message err) \<Rightarrow>
             s\<lparr>cycle := cycle1,
               status := ''error: '' @
                 (case message of None \<Rightarrow> err | Some m \<Rightarrow> if m = [] then err else m)\<rparr>))"

definition startAutoSend :: "app_state \<Rightarrow> nat \<Rightarrow> app_state" where
  \<comment> \<open>The second argument is the handle \<open>setInterval\<close> returns.\<close>
  "startAutoSend s h =
     (if truthy (autoRef s) then s
      else s\<lparr>autoSending := True, autoRef := Some h, intervals := h # intervals s,
             status := ''auto-started''\<rparr>)"

definition stopAutoSend :: "app_state \<Rightarrow> app_state" where
  "stopAutoSend s =
     (let s1 = (case autoRef s of
                  None \<Rightarrow> s
                | Some h \<Rightarrow>
                    if truthy (Some h)
                    then s\<lparr>intervals := removeAll h (intervals s), autoRef := None\<rparr>
                    else s)
      in s1\<lparr>autoSending := False, status := ''auto-stopped''\<rparr>)"

datatype event =
    Send draws "js_thrown option"
  | Start nat
  | Stop
  | Snapshot "js_object list"

fun step :: "app_state \<Rightarrow> event \<Rightarrow> app_state" where
  "step s (Send d outcome) = sendRandomToFirestore s d outcome"
| "step s (Start h) = startAutoSend s h"
| "step s Stop = stopAutoSend s"
| "step s (Snapshot arr) = s\<lparr>records := arr\<rparr>"

definition run :: "app_state \<Rightarrow> event list \<Rightarrow> app_state" where
  "run s es = foldl step s es"

definition ml_inputs :: "app_state \<Rightarrow> js_error + (real list list list \<times> real list) option" where
  \<comment> \<open>The effect on \<open>records\<close>: with 20 records or more, the two request bodies,
      \<open>[sequence]\<close> for \<open>/predict_rul\<close> and \<open>sequenceForEst\<close> for \<open>/predict_temp\<close>.\<close>
  "ml_inputs s =
     (if 20 \<le> length (records s)
      then (let recentRecords = rev (take 20 (records s))
            in case sequence recentRecords of
                 Inl e \<Rightarrow> Inl e
               | Inr rows \<Rightarrow> Inr (Some ([rows], sequenceForEst rows)))
      else Inr None)"

section \<open>The FeatureRow of the specification\<close>

text \<open>
  The specification gives each row in closed form, from the fields of a sample and of its
  predecessor, a missing field counting as 0. \<open>feature_row\<close> is that closed form; the
  lemma \<open>sequence_eq\<close> below shows that the code computes it.
\<close>

definition field :: "js_object list \<Rightarrow> nat \<Rightarrow> string \<Rightarrow> real" where
  "field w i k = nullish ((w ! i) k) 0"

definition feature_row :: "js_object list \<Rightarrow> nat \<Rightarrow> real list" where
  "feature_row w i =
     [field w i ''temp'', field w i ''rpm'', field w i ''load'', field w i ''vibration'',
      field w i ''depth'',
      field w i ''temp'' - (if 0 < i then field w (i - 1) ''temp'' else field w i ''temp''),
      (field w i ''load'' * 9.55) / max (field w i ''rpm'') 1]"

section \<open>The generator, call by call\<close>

lemma generate_length: "length (fst (generate c ds)) = length ds"
proof (induction ds arbitrary: c)
  case Nil
  then show ?case by simp
next
  case (Cons d ds)
  obtain v c1 where m: "makeRandomDrillValues c d = (v, c1)" by (cases "makeRandomDrillValues c d")
  obtain vs c2 where g: "generate c1 ds = (vs, c2)" by (cases "generate c1 ds")
  from Cons.IH [of c1] g have "length vs = length ds" by simp
  then show ?case using m g by simp
qed

lemma generate_cycle: "snd (generate c ds) = c + length ds"
proof (induction ds arbitrary: c)
  case Nil
  then show ?case by simp
next
  case (Cons d ds)
  obtain v c1 where m: "makeRandomDrillValues c d = (v, c1)" by (cases "makeRandomDrillValues c d")
  then have c1: "c1 = Suc c" by (simp add: makeRandomDrillValues_def Let_def)
  obtain vs c2 where g: "generate c1 ds = (vs, c2)" by (cases "generate c1 ds")
  from Cons.IH [of c1] g have "c2 = c1 + length ds" by simp
  then show ?case using m g c1 by simp
qed

lemma Math_round_of_int: "Math_round (of_int k) = of_int k"
proof -
  have "\<lfloor>real_of_int k + 1 / 2\<rfloor> = k" by linarith
  then show ?thesis by (simp add: Math_round_def)
qed

lemma rpm_value: "rpm (fst (makeRandomDrillValues c d)) = 4999 - real c"
proof -
  have "5000 - degradationFactor (c + 1) * 1000 = real_of_int (4999 - int c)"
    by (simp add: degradationFactor_def field_simps)
  then have "Math_round (5000 - degradationFactor (c + 1) * 1000) = real_of_int (4999 - int c)"
    by (simp only: Math_round_of_int)
  then show ?thesis by (simp add: makeRandomDrillValues_def Let_def)
qed

lemma generate_nth:
  "i < length ds \<Longrightarrow> fst (generate c ds) ! i = fst (makeRandomDrillValues (c + i) (ds ! i))"
proof (induction ds arbitrary: c i)
  case Nil
  then show ?case by simp
next
  case (Cons d ds)
  obtain v c1 where m: "makeRandomDrillValues c d = (v, c1)" by (cases "makeRandomDrillValues c d")
  then have c1: "c1 = Suc c" by (simp add: makeRandomDrillValues_def Let_def)
  obtain vs c2 where g: "generate c1 ds = (vs, c2)" by (cases "generate c1 ds")
  show ?case
  proof (cases i)
    case 0
    then show ?thesis using m g by simp
  next
    case (Suc j)
    then have "j < length ds" using Cons.prems by simp
    from Cons.IH [OF this, of c1] show ?thesis using m g Suc c1 by simp
  qed
qed

lemma generate_call:
  assumes "1 \<le> c" and "c \<le> length ds"
  shows "fst (generate initial_cycle ds) ! (c - 1) = fst (makeRandomDrillValues (c - 1) (ds ! (c - 1)))"
proof -
  have "c - 1 < length ds" using assms by auto
  from generate_nth [OF this, of initial_cycle] show ?thesis by (simp add: initial_cycle_def)
qed

section \<open>Rounding to the nearest double is monotone and accurate\<close>

lemma bitlength_bounds: "0 < n \<Longrightarrow> 2 ^ (bitlength n - 1) \<le> n \<and> n < 2 ^ bitlength n"
proof (induction n rule: bitlength.induct)
  case (1 n)
  show ?case
  proof (cases "n div 2 = 0")
    case True
    then have "n = 1" using "1.prems" by auto
    then show ?thesis by (simp add: bitlength.simps [of "Suc 0"] bitlength.simps [of 0])
  next
    case False
    then have pos: "0 < n div 2" by simp
    have ih: "2 ^ (bitlength (n div 2) - 1) \<le> n div 2 \<and> n div 2 < 2 ^ bitlength (n div 2)"
      using "1.IH" "1.prems" pos by simp
    have b: "bitlength n = Suc (bitlength (n div 2))" using "1.prems" by (simp add: bitlength.simps [of n])
    have bp: "0 < bitlength (n div 2)" using pos by (simp add: bitlength.simps [of "n div 2"])
    then have e: "2 ^ (bitlength (n div 2)) = 2 * (2::nat) ^ (bitlength (n div 2) - 1)"
      by (cases "bitlength (n div 2)") simp_all
    have h1: "2 * (n div 2) \<le> n" by simp
    have h2: "n < 2 * (n div 2) + 2" by presburger
    have "2 * (2::nat) ^ (bitlength (n div 2) - 1) \<le> 2 * (n div 2)" using ih by simp
    then have lo: "2 ^ bitlength (n div 2) \<le> n" using h1 e by linarith
    have "2 * (n div 2) + 2 \<le> 2 * (2::nat) ^ bitlength (n div 2)" using ih by simp
    then have hi: "n < 2 * 2 ^ bitlength (n div 2)" using h2 by linarith
    show ?thesis using lo hi by (simp add: b)
  qed
qed

lemma bitlength_pos: "0 < n \<Longrightarrow> 0 < bitlength n"
  by (simp add: bitlength.simps [of n])

lemma exponent_bounds:
  assumes "x \<noteq> 0"
  shows "2 powi (exponent x) \<le> \<bar>x\<bar>" and "\<bar>x\<bar> < 2 powi (exponent x + 1)"
proof -
  let ?a = "\<bar>x\<bar>"
  have pos: "0 < ?a" using assms by simp
  have "2 powi (exponent x) \<le> ?a \<and> ?a < 2 powi (exponent x + 1)"
  proof (cases "1 \<le> ?a")
    case True
    let ?n = "nat \<lfloor>?a\<rfloor>"
    have n1: "0 < ?n" using True by simp
    let ?b = "bitlength ?n"
    have b1: "0 < ?b" using n1 by (rule bitlength_pos)
    have e: "exponent x = int (?b - 1)" using True b1 by (simp add: exponent_def Let_def)
    have bb: "2 ^ (?b - 1) \<le> ?n" "?n < 2 ^ ?b" using bitlength_bounds [OF n1] by simp_all
    have "real ?n \<le> ?a" using True by simp
    moreover have "(2::real) ^ (?b - 1) \<le> real ?n" using bb(1) by (metis of_nat_le_iff of_nat_numeral of_nat_power)
    ultimately have lo: "(2::real) ^ (?b - 1) \<le> ?a" by linarith
    have "Suc ?n \<le> 2 ^ ?b" using bb(2) by (rule Suc_leI)
    then have "real (Suc ?n) \<le> 2 ^ ?b" by (metis of_nat_le_iff of_nat_numeral of_nat_power)
    moreover have "real ?n = of_int \<lfloor>?a\<rfloor>" using True by simp
    then have "?a < real (Suc ?n)" by (simp only: of_nat_Suc) linarith
    ultimately have hi: "?a < (2::real) ^ ?b" by linarith
    have e1: "exponent x + 1 = int ?b" using e b1 by simp
    have p1: "2 powi (exponent x) = (2::real) ^ (?b - 1)" by (simp only: e power_int_of_nat)
    have p2: "2 powi (exponent x + 1) = (2::real) ^ ?b" by (simp only: e1 power_int_of_nat)
    show ?thesis unfolding p1 p2 using lo hi by blast
  next
    case False
    let ?y = "1 / ?a"
    have y1: "1 < ?y" using False pos by simp
    let ?m = "nat (\<lceil>?y\<rceil> - 1)"
    have c2: "2 \<le> \<lceil>?y\<rceil>" using y1 by linarith
    then have m1: "0 < ?m" by simp
    let ?b = "bitlength ?m"
    have b1: "0 < ?b" using m1 by (rule bitlength_pos)
    have e: "exponent x = - int ?b" using False by (simp add: exponent_def Let_def)
    have bb: "2 ^ (?b - 1) \<le> ?m" "?m < 2 ^ ?b" using bitlength_bounds [OF m1] by simp_all
    have "0 \<le> \<lceil>?y\<rceil> - 1" using c2 by linarith
    then have im: "int ?m = \<lceil>?y\<rceil> - 1" by (rule nat_0_le)
    have "real ?m = real_of_int (int ?m)" by simp
    also have "\<dots> = real_of_int (\<lceil>?y\<rceil> - 1)" by (simp only: im)
    also have "\<dots> = real_of_int \<lceil>?y\<rceil> - 1" by simp
    finally have rm: "real ?m = of_int \<lceil>?y\<rceil> - 1" .
    have my: "real ?m < ?y" "?y \<le> real ?m + 1" unfolding rm by linarith+
    have "(2::real) ^ (?b - 1) \<le> real ?m" using bb(1) by (metis of_nat_le_iff of_nat_numeral of_nat_power)
    then have ylo: "(2::real) ^ (?b - 1) < ?y" using my(1) by linarith
    have "Suc ?m \<le> 2 ^ ?b" using bb(2) by (rule Suc_leI)
    then have "real (Suc ?m) \<le> 2 ^ ?b" by (metis of_nat_le_iff of_nat_numeral of_nat_power)
    then have yhi: "?y \<le> (2::real) ^ ?b" using my(2) by (simp only: of_nat_Suc)
    have lo: "1 / (2::real) ^ ?b \<le> ?a"
    proof -
      have "?a * ?y = 1" using pos by simp
      then have "1 \<le> ?a * 2 ^ ?b" using yhi pos by (metis mult_left_mono less_imp_le)
      then show ?thesis by (simp add: pos_divide_le_eq)
    qed
    have hi: "?a < 1 / (2::real) ^ (?b - 1)"
    proof -
      have "?a * ?y = 1" using pos by simp
      then have "?a * 2 ^ (?b - 1) < 1" using ylo pos by (metis mult_strict_left_mono)
      then show ?thesis by (simp add: pos_less_divide_eq)
    qed
    have p1: "2 powi (- int ?b) = 1 / (2::real) ^ ?b"
      by (simp add: power_int_minus divide_inverse)
    have "- int ?b + 1 = - int (?b - 1)" using b1 by simp
    then have p2: "2 powi (- int ?b + 1) = 1 / (2::real) ^ (?b - 1)"
      by (simp only: power_int_minus power_int_of_nat divide_inverse)
    show ?thesis unfolding e p1 p2 using lo hi by blast
  qed
  then show "2 powi (exponent x) \<le> \<bar>x\<bar>" and "\<bar>x\<bar> < 2 powi (exponent x + 1)" by simp_all
qed

lemma powi_less_imp_less:
  assumes "(2::real) powi a < 2 powi b"
  shows "a < b"
proof (rule ccontr)
  assume "\<not> a < b"
  then have "b \<le> a" by simp
  then have "(2::real) powi b \<le> 2 powi a" by (rule power_int_increasing) simp
  then show False using assms by simp
qed

lemma exponent_unique:
  assumes "2 powi e \<le> \<bar>x\<bar>" and "\<bar>x\<bar> < 2 powi (e + 1)"
  shows "exponent x = e"
proof -
  have "(0::real) < 2 powi e" by simp
  then have "0 < \<bar>x\<bar>" using assms(1) by linarith
  then have nz: "x \<noteq> 0" by simp
  have "(2::real) powi e < 2 powi (exponent x + 1)"
    using assms(1) exponent_bounds(2) [OF nz] by linarith
  then have a: "e < exponent x + 1" by (rule powi_less_imp_less)
  have "(2::real) powi (exponent x) < 2 powi (e + 1)"
    using assms(2) exponent_bounds(1) [OF nz] by linarith
  then have "exponent x < e + 1" by (rule powi_less_imp_less)
  then show ?thesis using a by simp
qed

lemma rne_of_int: "rne (of_int m) = m"
  by (simp add: rne_def)

lemma rne_cases: "rne y = \<lfloor>y\<rfloor> \<or> rne y = \<lfloor>y\<rfloor> + 1"
  by (simp add: rne_def Let_def)

lemma rne_error: "\<bar>of_int (rne y) - y\<bar> \<le> 1 / 2"
proof -
  let ?d = "y - of_int \<lfloor>y\<rfloor>"
  have d: "0 \<le> ?d" "?d < 1" by linarith+
  show ?thesis
  proof (cases "?d < 1 / 2")
    case True
    then have "rne y = \<lfloor>y\<rfloor>" by (simp add: rne_def Let_def)
    then show ?thesis using True d by simp
  next
    case False
    show ?thesis
    proof (cases "1 / 2 < ?d")
      case True
      then have "rne y = \<lfloor>y\<rfloor> + 1" using False by (simp add: rne_def Let_def)
      then show ?thesis using True d by simp
    next
      case F2: False
      then have h: "?d = 1 / 2" using False by simp
      have "rne y = \<lfloor>y\<rfloor> \<or> rne y = \<lfloor>y\<rfloor> + 1" by (rule rne_cases)
      then show ?thesis using h by auto
    qed
  qed
qed

lemma rne_mono:
  assumes "x \<le> y"
  shows "rne x \<le> rne y"
proof (cases "\<lfloor>x\<rfloor> = \<lfloor>y\<rfloor>")
  case True
  have d: "x - of_int \<lfloor>y\<rfloor> \<le> y - of_int \<lfloor>y\<rfloor>" using assms by simp
  show ?thesis using d by (auto simp: rne_def Let_def True)
next
  case False
  have "\<lfloor>x\<rfloor> \<le> \<lfloor>y\<rfloor>" using assms by (rule floor_mono)
  then have "\<lfloor>x\<rfloor> + 1 \<le> \<lfloor>y\<rfloor>" using False by simp
  moreover have "rne x \<le> \<lfloor>x\<rfloor> + 1" using rne_cases [of x] by auto
  moreover have "\<lfloor>y\<rfloor> \<le> rne y" using rne_cases [of y] by auto
  ultimately show ?thesis by linarith
qed

lemma ulp_pos: "0 < ulp x"
  by (simp add: ulp_def)

lemma fl_zero: "fl 0 = 0"
  by (simp add: fl_def rne_def)

lemma powi_split:
  assumes "b \<le> a"
  shows "(2::real) powi a = of_int (2 ^ nat (a - b)) * 2 powi b"
proof -
  have "(2::real) powi a = 2 powi ((a - b) + b)" by simp
  also have "\<dots> = 2 powi (a - b) * 2 powi b" by (rule power_int_add) simp
  also have "(2::real) powi (a - b) = 2 powi (int (nat (a - b)))" using assms by simp
  also have "\<dots> = 2 ^ nat (a - b)" by (rule power_int_of_nat)
  finally show ?thesis by simp
qed

lemma fl_nonneg:
  assumes "0 \<le> x"
  shows "0 \<le> fl x"
proof -
  have "0 \<le> x / ulp x" using assms ulp_pos [of x] by simp
  then have "rne 0 \<le> rne (x / ulp x)" by (rule rne_mono)
  then have "0 \<le> rne (x / ulp x)" by (simp add: rne_def)
  then show ?thesis using ulp_pos [of x] by (simp add: fl_def)
qed

lemma exponent_mono:
  assumes "0 < x" and "x \<le> y"
  shows "exponent x \<le> exponent y"
proof -
  have nz: "x \<noteq> 0" "y \<noteq> 0" using assms by auto
  have "2 powi (exponent x) \<le> \<bar>x\<bar>" using nz(1) by (rule exponent_bounds(1))
  moreover have "\<bar>y\<bar> < 2 powi (exponent y + 1)" using nz(2) by (rule exponent_bounds(2))
  ultimately have "(2::real) powi (exponent x) < 2 powi (exponent y + 1)" using assms by simp
  then have "exponent x < exponent y + 1" by (rule powi_less_imp_less)
  then show ?thesis by simp
qed

lemma fl_mono:
  assumes "0 \<le> x" and "x \<le> y"
  shows "fl x \<le> fl y"
proof (cases "x = 0")
  case True
  then show ?thesis using fl_nonneg [of y] assms by (simp add: fl_zero)
next
  case False
  then have xp: "0 < x" and yp: "0 < y" using assms by auto
  let ?kx = "max (exponent x - 52) (- 1074)"
  let ?ky = "max (exponent y - 52) (- 1074)"
  have ee: "exponent x \<le> exponent y" using xp assms(2) by (rule exponent_mono)
  show ?thesis
  proof (cases "?kx = ?ky")
    case True
    then have u: "ulp x = ulp y" by (simp add: ulp_def)
    have "x / ulp y \<le> y / ulp y" using assms(2) ulp_pos [of y] by (simp add: divide_right_mono)
    then have "rne (x / ulp y) \<le> rne (y / ulp y)" by (rule rne_mono)
    then have "real_of_int (rne (x / ulp y)) \<le> real_of_int (rne (y / ulp y))" by simp
    then show ?thesis using ulp_pos [of y] by (simp add: fl_def u)
  next
    case neq: False
    then have lt: "?kx < ?ky" using ee by auto
    then have ky: "?ky = exponent y - 52" by auto
    have ex: "exponent x + 1 \<le> exponent y" using lt by auto
    have kxy: "?kx \<le> exponent y" using lt ky by auto
    \<comment> \<open>the larger value rounds to at least the power of two below it\<close>
    have sy: "(2::real) powi (exponent y) = of_int (2 ^ nat (exponent y - ?ky)) * 2 powi ?ky"
      by (rule powi_split) (simp add: ky)
    have "2 powi (exponent y) \<le> y" using exponent_bounds(1) [of y] yp by simp
    then have "of_int (2 ^ nat (exponent y - ?ky)) * 2 powi ?ky \<le> y" by (simp only: sy)
    then have "real_of_int (2 ^ nat (exponent y - ?ky)) \<le> y / ulp y"
      by (simp add: ulp_def pos_le_divide_eq)
    then have "rne (of_int (2 ^ nat (exponent y - ?ky))) \<le> rne (y / ulp y)" by (rule rne_mono)
    then have "real_of_int (2 ^ nat (exponent y - ?ky)) \<le> real_of_int (rne (y / ulp y))"
      by (simp only: rne_of_int of_int_le_iff)
    then have "real_of_int (2 ^ nat (exponent y - ?ky)) * ulp y \<le> fl y"
      using ulp_pos [of y] by (simp add: fl_def)
    then have lower: "2 powi (exponent y) \<le> fl y" by (simp only: sy ulp_def)
    \<comment> \<open>the smaller value rounds to at most that power of two\<close>
    have sx: "(2::real) powi (exponent y) = of_int (2 ^ nat (exponent y - ?kx)) * 2 powi ?kx"
      using kxy by (rule powi_split)
    have "x < 2 powi (exponent x + 1)" using exponent_bounds(2) [of x] xp by simp
    also have "\<dots> \<le> 2 powi (exponent y)" using ex by (rule power_int_increasing) simp
    finally have "x \<le> of_int (2 ^ nat (exponent y - ?kx)) * 2 powi ?kx" by (simp only: sx)
    then have "x / ulp x \<le> real_of_int (2 ^ nat (exponent y - ?kx))"
      by (simp add: ulp_def pos_divide_le_eq)
    then have "rne (x / ulp x) \<le> rne (of_int (2 ^ nat (exponent y - ?kx)))" by (rule rne_mono)
    then have "real_of_int (rne (x / ulp x)) \<le> real_of_int (2 ^ nat (exponent y - ?kx))"
      by (simp only: rne_of_int of_int_le_iff)
    then have "fl x \<le> real_of_int (2 ^ nat (exponent y - ?kx)) * ulp x"
      using ulp_pos [of x] by (simp add: fl_def)
    then have upper: "fl x \<le> 2 powi (exponent y)" by (simp only: sx ulp_def)
    show ?thesis using lower upper by linarith
  qed
qed

lemma fl_error:
  assumes "2 powi (- 1022) \<le> x"
  shows "\<bar>fl x - x\<bar> \<le> x / 2 ^ 53"
proof -
  have "(0::real) < 2 powi (- 1022)" by (rule zero_less_power_int) simp
  then have xp: "0 < x" using assms by linarith
  have "(2::real) powi (- 1022) < 2 powi (exponent x + 1)"
    using assms exponent_bounds(2) [of x] xp by simp
  then have "- 1022 < exponent x + 1" by (rule powi_less_imp_less)
  then have k: "max (exponent x - 52) (- 1074) = exponent x - 52" by simp
  have u: "ulp x = 2 powi (exponent x - 52)" by (simp only: ulp_def k)
  have "(2::real) powi (exponent x) = of_int (2 ^ nat (exponent x - (exponent x - 52))) * 2 powi (exponent x - 52)"
    by (rule powi_split) simp
  then have s: "(2::real) powi (exponent x) = 2 ^ 52 * ulp x" by (simp add: u)
  have "2 powi (exponent x) \<le> x" using exponent_bounds(1) [of x] xp by simp
  then have ux: "2 ^ 52 * ulp x \<le> x" by (simp only: s)
  have "\<bar>real_of_int (rne (x / ulp x)) - x / ulp x\<bar> \<le> 1 / 2" by (rule rne_error)
  then have "\<bar>real_of_int (rne (x / ulp x)) - x / ulp x\<bar> * ulp x \<le> 1 / 2 * ulp x"
    using ulp_pos [of x] by (simp add: mult_right_mono)
  moreover have "\<bar>real_of_int (rne (x / ulp x)) - x / ulp x\<bar> * ulp x = \<bar>fl x - x\<bar>"
  proof -
    have "fl x - x = (real_of_int (rne (x / ulp x)) - x / ulp x) * ulp x"
      using ulp_pos [of x] by (simp add: fl_def algebra_simps)
    then show ?thesis using ulp_pos [of x] by (simp add: abs_mult)
  qed
  ultimately have "\<bar>fl x - x\<bar> \<le> ulp x / 2" by simp
  then show ?thesis using ux by simp
qed

lemma toFixed_nonneg:
  assumes "0 \<le> x"
  shows "toFixed x f = (if 10 ^ 21 \<le> x then x else of_int \<lfloor>x * 10 ^ f + 1 / 2\<rfloor> / 10 ^ f)"
  using assms by (simp add: toFixed_def Let_def)

lemma toFixed_mono:
  assumes "0 \<le> x" and "x \<le> y"
  shows "toFixed x f \<le> toFixed y f"
proof -
  have y0: "0 \<le> y" using assms by simp
  have p: "(0::real) < 10 ^ f" by simp
  show ?thesis
  proof (cases "10 ^ 21 \<le> x")
    case True
    then show ?thesis using assms by (simp add: toFixed_nonneg y0)
  next
    case xs: False
    show ?thesis
    proof (cases "10 ^ 21 \<le> y")
      case True
      have a: "x * 10 ^ f \<le> 10 ^ 21 * 10 ^ f" by (rule mult_right_mono) (use xs in simp_all)
      have b: "real_of_int (10 ^ 21 * 10 ^ f) = 10 ^ 21 * 10 ^ f" by simp
      have "x * 10 ^ f + 1 / 2 < real_of_int (10 ^ 21 * 10 ^ f) + 1" using a unfolding b by linarith
      then have "\<lfloor>x * 10 ^ f + 1 / 2\<rfloor> < 10 ^ 21 * 10 ^ f + 1" by (simp only: floor_less_iff of_int_add of_int_1)
      then have "\<lfloor>x * 10 ^ f + 1 / 2\<rfloor> \<le> 10 ^ 21 * 10 ^ f" by simp
      then have "real_of_int \<lfloor>x * 10 ^ f + 1 / 2\<rfloor> \<le> real_of_int (10 ^ 21 * 10 ^ f)"
        by (simp only: of_int_le_iff)
      then have "real_of_int \<lfloor>x * 10 ^ f + 1 / 2\<rfloor> / 10 ^ f \<le> 10 ^ 21"
        using p by (simp add: pos_divide_le_eq)
      then show ?thesis using True xs by (simp add: toFixed_nonneg assms(1) y0)
    next
      case False
      have "x * 10 ^ f + 1 / 2 \<le> y * 10 ^ f + 1 / 2" using assms(2) p by (simp add: mult_right_mono)
      then have "\<lfloor>x * 10 ^ f + 1 / 2\<rfloor> \<le> \<lfloor>y * 10 ^ f + 1 / 2\<rfloor>" by (rule floor_mono)
      then have "real_of_int \<lfloor>x * 10 ^ f + 1 / 2\<rfloor> / 10 ^ f \<le> real_of_int \<lfloor>y * 10 ^ f + 1 / 2\<rfloor> / 10 ^ f"
        using p by (simp add: divide_right_mono)
      then show ?thesis using False xs by (simp add: toFixed_nonneg assms(1) y0)
    qed
  qed
qed

lemma toFixed_ge0:
  assumes "0 \<le> x"
  shows "0 \<le> toFixed x f"
proof -
  have "toFixed 0 f \<le> toFixed x f" using assms by (intro toFixed_mono) simp_all
  moreover have "toFixed 0 f = 0" by (simp add: toFixed_def)
  ultimately show ?thesis by simp
qed

lemma fl_20: "fl 20 = 20"
  by code_simp

section \<open>The temperature in double arithmetic\<close>

lemma normal_range:
  fixes x :: real
  assumes "1 / 1024 \<le> x"
  shows "2 powi (- 1022) \<le> x"
proof -
  have "(- 1022 :: int) \<le> - 10" by simp
  then have "(2::real) powi (- 1022) \<le> 2 powi (- 10)" by (rule power_int_increasing) simp
  moreover have "(2::real) powi (- 10) = 1 / 1024" by simp
  ultimately have "(2::real) powi (- 1022) \<le> 1 / 1024" by (simp only:)
  then show ?thesis using assms by (rule order_trans)
qed

lemma fl_rel:
  assumes "1 / 1024 \<le> x"
  shows "x - x / 9007199254740992 \<le> fl x" and "fl x \<le> x + x / 9007199254740992"
proof -
  have "\<bar>fl x - x\<bar> \<le> x / 2 ^ 53" using assms by (intro fl_error normal_range)
  then have "\<bar>fl x - x\<bar> \<le> x / 9007199254740992" by simp
  then show "x - x / 9007199254740992 \<le> fl x" and "fl x \<le> x + x / 9007199254740992"
    by linarith+
qed

lemma temp_double_draw_0:
  "temp_double c 0 = fl (toFixed (fl (20 + fl (fl (real c / 1000) * 10))) 2)"
  by (simp add: temp_double_def Let_def fl_zero fl_20)

lemma temp_double_least:
  assumes "0 \<le> r"
  shows "temp_double c 0 \<le> temp_double c r"
proof -
  let ?q = "fl (fl (real c / 1000) * 10)"
  have "0 \<le> fl (real c / 1000)" by (rule fl_nonneg) simp
  then have q: "0 \<le> ?q" by (intro fl_nonneg) simp
  have "0 \<le> fl (r * 60)" using assms by (intro fl_nonneg) simp
  then have "fl (20 + 0) \<le> fl (20 + fl (r * 60))" by (intro fl_mono) simp_all
  then have s: "20 \<le> fl (20 + fl (r * 60))" by (simp add: fl_20)
  then have "fl (20 + ?q) \<le> fl (fl (20 + fl (r * 60)) + ?q)" using q by (intro fl_mono) simp_all
  moreover have "0 \<le> fl (20 + ?q)" using q by (intro fl_nonneg) simp
  ultimately have "toFixed (fl (20 + ?q)) 2 \<le> toFixed (fl (fl (20 + fl (r * 60)) + ?q)) 2"
    by (intro toFixed_mono)
  moreover have "0 \<le> toFixed (fl (20 + ?q)) 2"
    using \<open>0 \<le> fl (20 + ?q)\<close> by (rule toFixed_ge0)
  ultimately have "fl (toFixed (fl (20 + ?q)) 2) \<le> fl (toFixed (fl (fl (20 + fl (r * 60)) + ?q)) 2)"
    by (intro fl_mono)
  then show ?thesis by (simp add: temp_double_draw_0) (simp add: temp_double_def Let_def)
qed

lemma rounding_chain:
  fixes C df q b :: real
  assumes d: "C / 1000 - C / 1000 / 9007199254740992 \<le> df"
      "df \<le> C / 1000 + C / 1000 / 9007199254740992"
    and qb: "df * 10 - df * 10 / 9007199254740992 \<le> q"
      "q \<le> df * 10 + df * 10 / 9007199254740992"
    and bb: "(20 + q) - (20 + q) / 9007199254740992 \<le> b"
      "b \<le> (20 + q) + (20 + q) / 9007199254740992"
    and C1: "1 \<le> C" and C2: "C < 562949953421312"
  shows "2000 + C \<le> b * 100 + 1 / 2" and "b * 100 + 1 / 2 < 2000 + C + 1"
proof -
  have q1: "C / 100 - 3 * (C / 100) / 9007199254740992 \<le> q" using d qb C1 by argo
  have q2: "q \<le> C / 100 + 3 * (C / 100) / 9007199254740992" using d qb C1 by argo
  have b1: "20 + C / 100 - 5 * (20 + C / 100) / 9007199254740992 \<le> b"
    using q1 q2 bb(1) C1 by argo
  have b2: "b \<le> 20 + C / 100 + 5 * (20 + C / 100) / 9007199254740992"
    using q1 q2 bb(2) C1 by argo
  show "2000 + C \<le> b * 100 + 1 / 2" using b1 C1 C2 by argo
  show "b * 100 + 1 / 2 < 2000 + C + 1" using b2 C1 C2 by argo
qed

lemma temp_double_nearest:
  assumes "1 \<le> c" and "c < 2 ^ 49"
  shows "temp_double c 0 = fl (20 + (real c / 1000) * 10)"
proof -
  define C where "C = real c"
  have C1: "1 \<le> C" using assms(1) by (simp add: C_def)
  have "real c < real (2 ^ 49)" using assms(2) by (simp only: of_nat_less_iff)
  then have C2: "C < 562949953421312" by (simp add: C_def)
  define df where "df = fl (C / 1000)"
  define q where "q = fl (df * 10)"
  define b where "b = fl (20 + q)"
  have "1 / 1024 \<le> C / 1000" using C1 by simp
  then have d: "C / 1000 - C / 1000 / 9007199254740992 \<le> df"
    "df \<le> C / 1000 + C / 1000 / 9007199254740992"
    unfolding df_def by (rule fl_rel)+
  have "1 / 1024 \<le> df * 10" using d(1) C1 by argo
  then have qb: "df * 10 - df * 10 / 9007199254740992 \<le> q"
    "q \<le> df * 10 + df * 10 / 9007199254740992"
    unfolding q_def by (rule fl_rel)+
  have q0: "0 \<le> q" using qb(1) d(1) C1 by argo
  then have "1 / 1024 \<le> 20 + q" by simp
  then have bb: "(20 + q) - (20 + q) / 9007199254740992 \<le> b"
    "b \<le> (20 + q) + (20 + q) / 9007199254740992"
    unfolding b_def by (rule fl_rel)+
  have lo: "2000 + C \<le> b * 100 + 1 / 2" using d qb bb C1 C2 by (rule rounding_chain(1))
  have hi: "b * 100 + 1 / 2 < 2000 + C + 1" using d qb bb C1 C2 by (rule rounding_chain(2))
  have "real_of_int (2000 + int c) \<le> b * 10 ^ 2 + 1 / 2"
    "b * 10 ^ 2 + 1 / 2 < real_of_int (2000 + int c) + 1"
    using lo hi by (simp_all add: C_def)
  then have "\<lfloor>b * 10 ^ 2 + 1 / 2\<rfloor> = 2000 + int c" by (intro floor_unique)
  moreover have "0 \<le> b" "b < 1000000000000000000000" using lo hi C1 C2 by argo+
  ultimately have "toFixed b 2 = real_of_int (2000 + int c) / 10 ^ 2"
    by (simp add: toFixed_nonneg)
  then have "toFixed b 2 = 20 + (real c / 1000) * 10" by simp
  then show ?thesis by (simp add: temp_double_draw_0 b_def q_def df_def C_def)
qed

lemma temp_double_increases:
  assumes "1 \<le> c" and "c + 1 < 2 ^ 49"
  shows "temp_double c 0 < temp_double (c + 1) 0"
proof -
  define B where "B = 20 + (real c / 1000) * 10"
  have c49: "c < 2 ^ 49" using assms(2) by simp
  have "real (c + 1) < real (2 ^ 49)" using assms(2) by (simp only: of_nat_less_iff)
  then have B2: "B < 5629499534234" by (simp add: B_def)
  have B1: "20 \<le> B" by (simp add: B_def)
  have n: "20 + (real (c + 1) / 1000) * 10 = B + 1 / 100" by (simp add: B_def field_simps)
  have r1: "1 / 1024 \<le> B" and r2: "1 / 1024 \<le> B + 1 / 100" using B1 by simp_all
  have f1: "fl B \<le> B + B / 9007199254740992" using r1 by (rule fl_rel(2))
  have f2: "B + 1 / 100 - (B + 1 / 100) / 9007199254740992 \<le> fl (B + 1 / 100)"
    using r2 by (rule fl_rel(1))
  have "fl B < fl (B + 1 / 100)" using f1 f2 B1 B2 by argo
  moreover have "temp_double c 0 = fl B"
    unfolding B_def using assms(1) c49 by (rule temp_double_nearest)
  moreover have "temp_double (c + 1) 0 = fl (B + 1 / 100)"
    unfolding n [symmetric] using assms(2) by (intro temp_double_nearest) simp_all
  ultimately show ?thesis by simp
qed

section \<open>The feature window is the closed form\<close>

lemma map_from_eq:
  "(\<And>j. j < length xs \<Longrightarrow> f (xs ! j) (i + j) = Inr (g (i + j))) \<Longrightarrow>
   map_from f i xs = Inr (map g [i..<i + length xs])"
proof (induction xs arbitrary: i)
  case Nil
  then show ?case by simp
next
  case (Cons x xs)
  have h: "f x i = Inr (g i)" using Cons.prems [of 0] by simp
  have "\<And>j. j < length xs \<Longrightarrow> f (xs ! j) (Suc i + j) = Inr (g (Suc i + j))"
    using Cons.prems [of "Suc _"] by simp
  from Cons.IH [OF this] have r: "map_from f (Suc i) xs = Inr (map g [Suc i..<Suc i + length xs])" .
  have u: "[i..<i + length (x # xs)] = i # [Suc i..<Suc i + length xs]"
    by (simp add: upt_conv_Cons del: upt_Suc)
  show ?case by (simp only: map_from.simps h r u sum.case list.map)
qed

lemma Math_max_eq: "Math_max a b = max a b"
  by (simp add: Math_max_def max_def)

lemma sequence_row_eq:
  assumes "i < length w"
  shows "sequence_row w (w ! i) i = Inr (feature_row w i)"
proof (cases "0 < i")
  case True
  then have "i - 1 < length w" using assms by simp
  then have "temp_of (index w (i - 1)) = Inr ((w ! (i - 1)) ''temp'')"
    by (simp add: temp_of_def index_def)
  then show ?thesis using True
    by (simp add: sequence_row_def feature_row_def field_def Let_def Math_max_eq)
next
  case False
  then show ?thesis
    by (simp add: sequence_row_def feature_row_def field_def Let_def Math_max_eq)
qed

lemma sequence_eq: "sequence w = Inr (map (feature_row w) [0..<length w])"
proof -
  have "map_from (sequence_row w) 0 w = Inr (map (feature_row w) [0..<0 + length w])"
    by (rule map_from_eq) (simp add: sequence_row_eq)
  then show ?thesis by (simp add: sequence_def)
qed

lemma sequence_rows:
  assumes "sequence w = Inr rows"
  shows "length rows = length w" and "i < length w \<Longrightarrow> rows ! i = feature_row w i"
  using assms by (auto simp: sequence_eq)

lemma sequenceForEst_length:
  "(\<And>row. row \<in> set rows \<Longrightarrow> length row = 7) \<Longrightarrow> length (sequenceForEst rows) = 6 * length rows"
  by (induction rows) (simp_all add: sequenceForEst_def)

lemma sequenceForEst_nth:
  "(\<And>row. row \<in> set rows \<Longrightarrow> length row = 7) \<Longrightarrow> i < length rows \<Longrightarrow> k < 6 \<Longrightarrow>
   sequenceForEst rows ! (6 * i + k) = rows ! i ! (k + 1)"
proof (induction rows arbitrary: i)
  case Nil
  then show ?case by simp
next
  case (Cons r rows)
  have len: "length r = 7" using Cons.prems(1) by simp
  have split: "sequenceForEst (r # rows) = drop 1 r @ sequenceForEst rows"
    by (simp add: sequenceForEst_def)
  show ?case
  proof (cases i)
    case 0
    then show ?thesis using len Cons.prems(3) by (simp add: split nth_append)
  next
    case (Suc j)
    then have j: "j < length rows" using Cons.prems(2) by simp
    have "sequenceForEst rows ! (6 * j + k) = rows ! j ! (k + 1)"
      using Cons.IH [OF _ j Cons.prems(3)] Cons.prems(1) by simp
    moreover have "6 * i + k - 6 = 6 * j + k" using Suc by simp
    ultimately show ?thesis using len Suc by (simp add: split nth_append)
  qed
qed

lemma feature_row_nth:
  "feature_row w i ! 0 = field w i ''temp''"
  "feature_row w i ! 1 = field w i ''rpm''"
  "feature_row w i ! 2 = field w i ''load''"
  "feature_row w i ! 5 = field w i ''temp'' - (if 0 < i then field w (i - 1) ''temp'' else field w i ''temp'')"
  "feature_row w i ! 6 = (field w i ''load'' * 9.55) / max (field w i ''rpm'') 1"
  "length (feature_row w i) = 7"
  by (simp_all add: feature_row_def)

lemma feature_row_cong:
  assumes "\<And>j k. j < n \<Longrightarrow> field w' j k = field w j k" and "i < n"
  shows "feature_row w' i = feature_row w i"
proof -
  have "i - 1 < n" using assms(2) by simp
  then show ?thesis using assms by (simp add: feature_row_def)
qed

lemma field_update_missing:
  assumes "i < length w" and "(w ! i) k = None"
  shows "field (w[i := (w ! i)(k \<mapsto> Num 0)]) j k' = field w j k'"
proof (cases "j = i")
  case True
  then show ?thesis using assms by (simp add: field_def nullish_def)
next
  case False
  then show ?thesis by (simp add: field_def)
qed

section \<open>The handlers and the state\<close>

lemma records_sendRandomToFirestore: "records (sendRandomToFirestore s d oc) = records s"
  by (simp add: sendRandomToFirestore_def split: prod.splits option.splits js_thrown.splits)

lemma records_startAutoSend: "records (startAutoSend s h) = records s"
  by (simp add: startAutoSend_def)

lemma records_stopAutoSend: "records (stopAutoSend s) = records s"
  by (simp add: stopAutoSend_def Let_def split: option.splits)

lemma stopAutoSend_falsy:
  "\<not> truthy (autoRef s) \<Longrightarrow>
   stopAutoSend s = s\<lparr>autoSending := False, status := ''auto-stopped''\<rparr>"
  by (cases "autoRef s") (simp_all add: stopAutoSend_def Let_def)

lemma cycle_sendRandomToFirestore: "cycle (sendRandomToFirestore s d oc) = cycle s + 1"
  by (simp add: sendRandomToFirestore_def makeRandomDrillValues_def Let_def
      split: option.splits js_thrown.splits)

lemma cycle_step:
  "cycle (step s e) = (case e of Send d oc \<Rightarrow> cycle s + 1 | _ \<Rightarrow> cycle s)"
  by (cases e)
    (simp_all add: sendRandomToFirestore_def makeRandomDrillValues_def startAutoSend_def
      stopAutoSend_def Let_def split: option.splits js_thrown.splits)

lemma cycle_run: "cycle s \<le> cycle (run s es)"
proof (induction es arbitrary: s)
  case Nil
  then show ?case by (simp add: run_def)
next
  case (Cons e es)
  have "cycle s \<le> cycle (step s e)" by (simp add: cycle_step split: event.splits)
  also have "\<dots> \<le> cycle (run (step s e) es)" by (rule Cons.IH)
  finally show ?case by (simp add: run_def)
qed

section \<open>The claims\<close>

text \<open>
  C1. Counting the calls of the generator from 1, the \<open>rpm\<close> of call \<open>c\<close> is
  \<open>Math.round(5000 - (c / 1000) * 1000)\<close>, which is \<open>5000 - c\<close>. A later call never has
  a larger \<open>rpm\<close>, and since nothing clamps the value, every call after the 5000th has a
  negative one. The draws of \<open>Math.random()\<close> play no part.
\<close>

theorem rpm_of_call:
  assumes "1 \<le> c" and "c \<le> length ds"
  shows "rpm (fst (generate initial_cycle ds) ! (c - 1)) = Math_round (5000 - (real c / 1000) * 1000) \<and>
         rpm (fst (generate initial_cycle ds) ! (c - 1)) = 5000 - real c \<and>
         (\<forall>c'. c \<le> c' \<and> c' \<le> length ds \<longrightarrow>
            rpm (fst (generate initial_cycle ds) ! (c' - 1)) \<le> rpm (fst (generate initial_cycle ds) ! (c - 1))) \<and>
         (5000 < c \<longrightarrow> rpm (fst (generate initial_cycle ds) ! (c - 1)) < 0)"
proof -
  have v: "rpm (fst (generate initial_cycle ds) ! (k - 1)) = 5000 - real k"
    if "1 \<le> k" "k \<le> length ds" for k
  proof -
    have "rpm (fst (generate initial_cycle ds) ! (k - 1)) = 4999 - real (k - 1)"
      by (simp only: generate_call [OF that] rpm_value)
    then show ?thesis using that(1) by (simp add: of_nat_diff)
  qed
  have "Math_round (5000 - (real c / 1000) * 1000) = Math_round (real_of_int (5000 - int c))"
    by simp
  also have "\<dots> = real_of_int (5000 - int c)" by (rule Math_round_of_int)
  finally have "Math_round (5000 - (real c / 1000) * 1000) = 5000 - real c" by simp
  moreover have "rpm (fst (generate initial_cycle ds) ! (c' - 1))
        \<le> rpm (fst (generate initial_cycle ds) ! (c - 1))"
    if "c \<le> c' \<and> c' \<le> length ds" for c'
  proof -
    have "1 \<le> c'" "c' \<le> length ds" using that assms(1) by auto
    from v [OF this] v [OF assms] that show ?thesis by simp
  qed
  ultimately show ?thesis using v [OF assms] by simp
qed

theorem rpm_of_call_witness:
  "rpm (fst (generate initial_cycle (replicate 5001 \<lparr>random_temp = 0, random_load = 0, random_vibration = 0, random_depth = 0\<rparr>)) ! (1 - 1)) = 4999 \<and>
   rpm (fst (generate initial_cycle (replicate 5001 \<lparr>random_temp = 0, random_load = 0, random_vibration = 0, random_depth = 0\<rparr>)) ! (5001 - 1)) = - 1 \<and>
   rpm (fst (generate initial_cycle (replicate 5001 \<lparr>random_temp = 0, random_load = 0, random_vibration = 0, random_depth = 0\<rparr>)) ! (5001 - 1))
     \<le> rpm (fst (generate initial_cycle (replicate 5001 \<lparr>random_temp = 0, random_load = 0, random_vibration = 0, random_depth = 0\<rparr>)) ! (1 - 1))"
proof -
  let ?ds = "replicate 5001 \<lparr>random_temp = 0, random_load = 0, random_vibration = 0, random_depth = 0\<rparr>"
  have a: "(1::nat) \<le> 1" "1 \<le> length ?ds" and b: "(1::nat) \<le> 5001" "5001 \<le> length ?ds"
    by simp_all
  have c: "(1::nat) \<le> 5001 \<and> 5001 \<le> length ?ds" by simp
  from rpm_of_call [OF a] rpm_of_call [OF b] c show ?thesis by auto
qed

text \<open>
  C2. In every window the temperature change of the first row is 0, and that of row
  \<open>i \<ge> 1\<close> is the temperature of row \<open>i\<close> minus the temperature of row \<open>i - 1\<close>
  (entry 0 of a row is its temperature, entry 5 its temperature change). A window of
  three samples with the temperatures 30, 32, 31 gives the changes 0, 2, -1.
\<close>

theorem temperatureChange_is_difference:
  assumes "sequence w = Inr rows"
  shows "(0 < length w \<longrightarrow> rows ! 0 ! 5 = 0) \<and>
         (\<forall>i. 1 \<le> i \<and> i < length w \<longrightarrow> rows ! i ! 5 = rows ! i ! 0 - rows ! (i - 1) ! 0) \<and>
         (map (\<lambda>r. r ''temp'') w = [Some (Num 30), Some (Num 32), Some (Num 31)] \<longrightarrow>
            map (\<lambda>row. row ! 5) rows = [0, 2, - 1])"
proof (intro conjI impI allI)
  assume "0 < length w"
  then show "rows ! 0 ! 5 = 0"
    by (simp add: sequence_rows(2) [OF assms] feature_row_nth)
next
  fix i assume i: "1 \<le> i \<and> i < length w"
  then have "i - 1 < length w" by auto
  then have "rows ! (i - 1) = feature_row w (i - 1)" by (rule sequence_rows(2) [OF assms])
  moreover have "rows ! i = feature_row w i" using i by (simp add: sequence_rows(2) [OF assms])
  ultimately show "rows ! i ! 5 = rows ! i ! 0 - rows ! (i - 1) ! 0"
    using i by (simp add: feature_row_nth)
next
  assume t: "map (\<lambda>r. r ''temp'') w = [Some (Num 30), Some (Num 32), Some (Num 31)]"
  then have "length (map (\<lambda>r. r ''temp'') w) = 3" by simp
  then have len: "length w = 3" by simp
  then obtain a b c where w: "w = [a, b, c]"
    by (metis (no_types) length_0_conv length_Suc_conv numeral_3_eq_3)
  have f: "field w 0 ''temp'' = 30" "field w 1 ''temp'' = 32" "field w 2 ''temp'' = 31"
    using t by (simp_all add: w field_def nullish_def)
  have "rows = map (feature_row w) [0..<3]" using assms len by (simp add: sequence_eq)
  also have "[0..<3] = [0, 1, 2::nat]" by (simp add: upt_conv_Cons)
  finally show "map (\<lambda>row. row ! 5) rows = [0, 2, - 1]"
    using f by (simp add: feature_row_nth)
qed

theorem temperatureChange_is_difference_witness:
  "sequence [[''temp'' \<mapsto> Num 30], [''temp'' \<mapsto> Num 32, ''rpm'' \<mapsto> Num 4000], [''temp'' \<mapsto> Num 31]]
     = Inr [[30, 0, 0, 0, 0, 0, 0], [32, 4000, 0, 0, 0, 2, 0], [31, 0, 0, 0, 0, - 1, 0]] \<and>
   map (\<lambda>row. row ! 5) [[30, 0, 0, 0, 0, 0, 0], [32, 4000, 0, 0, 0, 2, 0], [31, 0, 0, 0, 0, - 1, 0 :: real]]
     = [0, 2, - 1]"
proof -
  have h: "sequence [[''temp'' \<mapsto> Num 30], [''temp'' \<mapsto> Num 32, ''rpm'' \<mapsto> Num 4000], [''temp'' \<mapsto> Num 31]]
     = Inr [[30, 0, 0, 0, 0, 0, 0], [32, 4000, 0, 0, 0, 2, 0], [31, 0, 0, 0, 0, - 1, 0]]"
    by (simp add: sequence_def sequence_row_def Let_def temp_of_def index_def nullish_def Math_max_def)
  from temperatureChange_is_difference [OF h] show ?thesis using h by simp
qed

text \<open>
  C3. In every row the torque estimate (entry 6) is \<open>(load * 9.55) / max(rpm, 1)\<close>, where
  \<open>rpm\<close> (entry 1) and \<open>load\<close> (entry 2) are the fields of the sample, 0 when missing. The
  divisor is at least 1, so it is never zero; with \<open>rpm = 0\<close> it is 1.
\<close>

theorem torqueEstimate_divisor:
  assumes "sequence w = Inr rows" and "i < length w"
  shows "rows ! i ! 6 = (rows ! i ! 2 * 9.55) / max (rows ! i ! 1) 1 \<and>
         rows ! i ! 1 = nullish ((w ! i) ''rpm'') 0 \<and>
         rows ! i ! 2 = nullish ((w ! i) ''load'') 0 \<and>
         1 \<le> max (rows ! i ! 1) 1 \<and>
         (rows ! i ! 1 = 0 \<longrightarrow> max (rows ! i ! 1) 1 = 1 \<and> rows ! i ! 6 = rows ! i ! 2 * 9.55)"
proof -
  have r: "rows ! i = feature_row w i" using assms by (simp add: sequence_rows(2))
  have e: "rows ! i ! 1 = nullish ((w ! i) ''rpm'') 0" "rows ! i ! 2 = nullish ((w ! i) ''load'') 0"
    "rows ! i ! 6 = (rows ! i ! 2 * 9.55) / max (rows ! i ! 1) 1"
    by (simp_all add: r feature_row_def field_def)
  have "rows ! i ! 1 = 0 \<longrightarrow> max (rows ! i ! 1) 1 = 1 \<and> rows ! i ! 6 = rows ! i ! 2 * 9.55"
    using e(3) by simp
  then show ?thesis using e by simp
qed

theorem torqueEstimate_divisor_witness:
  "sequence [[''load'' \<mapsto> Num 10, ''rpm'' \<mapsto> Num 0], [''load'' \<mapsto> Num 20, ''rpm'' \<mapsto> Num 4000]]
     = Inr [[0, 0, 10, 0, 0, 0, 95.5], [0, 4000, 20, 0, 0, 0, 0.04775]] \<and>
   (95.5 :: real) = (10 * 9.55) / max 0 1 \<and> (0.04775 :: real) = (20 * 9.55) / max 4000 1"
proof -
  let ?w = "[[''load'' \<mapsto> Num 10, ''rpm'' \<mapsto> Num 0], [''load'' \<mapsto> Num 20, ''rpm'' \<mapsto> Num 4000]]"
  have h: "sequence ?w = Inr [[0, 0, 10, 0, 0, 0, 95.5], [0, 4000, 20, 0, 0, 0, 0.04775]]"
    by (simp add: sequence_def sequence_row_def Let_def temp_of_def index_def nullish_def Math_max_def)
  have l0: "0 < length ?w" and l1: "1 < length ?w" by simp_all
  from torqueEstimate_divisor [OF h l0] torqueEstimate_divisor [OF h l1] show ?thesis
    using h by simp
qed

text \<open>
  C4. In double arithmetic the temperature can lie below \<open>20 + (c / 1000) * 10\<close>. On call
  199 the draw 0 gives the double nearest to 21.99, which is \<open>6189634737867325 / 2^48\<close>,
  less than 21.99; the draw \<open>1 / 16384\<close> gives the same.
\<close>

theorem temperature_below_bound:
  "temp_double 199 0 = 6189634737867325 / 2 ^ 48 \<and>
   temp_double 199 0 < 20 + (199 / 1000) * 10 \<and>
   temp_double 199 (1 / 16384) < 20 + (199 / 1000) * 10"
proof -
  have a: "temp_double 199 0 = 6189634737867325 / 2 ^ 48" by code_simp
  have b: "temp_double 199 (1 / 16384) = 6189634737867325 / 2 ^ 48" by code_simp
  show ?thesis by (simp add: a b)
qed

text \<open>
  C4, amended. Whatever \<open>Math.random()\<close> returns, the temperature of a call is at least
  the temperature the same call returns for the draw 0, which is therefore the least
  possible temperature: the code's own rounding \<open>+(20 + (c / 1000) * 10).toFixed(2)\<close>. For
  a counter \<open>c\<close> from 1 to below \<open>2^49 - 1\<close> this least temperature is the double nearest
  to \<open>20 + (c / 1000) * 10\<close>, so it differs from that bound by at most the bound times
  \<open>2^-53\<close>, and it grows strictly with \<open>c\<close>.
\<close>

theorem temperature_least:
  assumes "0 \<le> r"
  shows "temp_double c 0 \<le> temp_double c r \<and>
         temp_double c 0 = fl (toFixed (fl (20 + fl (fl (real c / 1000) * 10))) 2) \<and>
         (1 \<le> c \<and> c + 1 < 2 ^ 49 \<longrightarrow>
            temp_double c 0 = fl (20 + (real c / 1000) * 10) \<and>
            \<bar>temp_double c 0 - (20 + (real c / 1000) * 10)\<bar> \<le> (20 + (real c / 1000) * 10) / 2 ^ 53 \<and>
            temp_double c 0 < temp_double (c + 1) 0)"
proof -
  have least: "temp_double c 0 \<le> temp_double c r" using assms by (rule temp_double_least)
  have zero: "temp_double c 0 = fl (toFixed (fl (20 + fl (fl (real c / 1000) * 10))) 2)"
    by (rule temp_double_draw_0)
  have near: "temp_double c 0 = fl (20 + (real c / 1000) * 10) \<and>
      \<bar>temp_double c 0 - (20 + (real c / 1000) * 10)\<bar> \<le> (20 + (real c / 1000) * 10) / 2 ^ 53 \<and>
      temp_double c 0 < temp_double (c + 1) 0"
    if h: "1 \<le> c \<and> c + 1 < 2 ^ 49"
  proof -
    have c49: "c < 2 ^ 49" using h by simp
    have e: "temp_double c 0 = fl (20 + (real c / 1000) * 10)"
      using h c49 by (intro temp_double_nearest) simp_all
    have "1 / 1024 \<le> 20 + (real c / 1000) * 10" by simp
    then have "\<bar>fl (20 + (real c / 1000) * 10) - (20 + (real c / 1000) * 10)\<bar>
        \<le> (20 + (real c / 1000) * 10) / 2 ^ 53"
      by (intro fl_error normal_range)
    moreover have "temp_double c 0 < temp_double (c + 1) 0"
      using h by (intro temp_double_increases) simp_all
    ultimately show ?thesis by (simp only: e)
  qed
  show ?thesis using least zero near by blast
qed

theorem temperature_least_witness:
  "(0::real) \<le> 1 / 2 \<and> temp_double 199 0 \<le> temp_double 199 (1 / 2) \<and>
   temp_double 199 0 = fl (20 + (real 199 / 1000) * 10) \<and>
   temp_double 199 0 < temp_double (199 + 1) 0"
proof -
  have r: "(0::real) \<le> 1 / 2" by simp
  have c: "(1::nat) \<le> 199 \<and> (199::nat) + 1 < 2 ^ 49" by simp
  from temperature_least [OF r, of 199] c r show ?thesis by blast
qed

text \<open>
  C5. For the rows of a window of \<open>W\<close> samples, each row has 7 entries and the flattened
  sequence without the temperatures has \<open>6 * W\<close>: entry \<open>6 * i + k\<close> of it, for \<open>k < 6\<close>,
  is entry \<open>k + 1\<close> of row \<open>i\<close>. So entry 0 of every row is dropped, and the rows and the
  entries within a row keep their order.
\<close>

theorem sequenceForEst_shape:
  assumes "sequence w = Inr rows"
  shows "length rows = length w \<and> (\<forall>row \<in> set rows. length row = 7) \<and>
         length (sequenceForEst rows) = 6 * length w \<and>
         (\<forall>i k. i < length w \<and> k < 6 \<longrightarrow> sequenceForEst rows ! (6 * i + k) = rows ! i ! (k + 1))"
proof -
  have len: "length rows = length w" using assms by (rule sequence_rows(1))
  have seven: "length row = 7" if "row \<in> set rows" for row
  proof -
    from that obtain i where "i < length rows" "row = rows ! i" by (auto simp: in_set_conv_nth)
    then show ?thesis using sequence_rows(2) [OF assms, of i] len by (simp add: feature_row_nth)
  qed
  have "length (sequenceForEst rows) = 6 * length rows"
    by (rule sequenceForEst_length) (rule seven)
  moreover have "sequenceForEst rows ! (6 * i + k) = rows ! i ! (k + 1)"
    if "i < length w \<and> k < 6" for i k
    using that sequenceForEst_nth [of rows i k] seven len by simp
  ultimately show ?thesis using len seven by simp
qed

theorem sequenceForEst_shape_witness:
  "sequence [[''temp'' \<mapsto> Num 30, ''rpm'' \<mapsto> Num 5, ''load'' \<mapsto> Num 2, ''vibration'' \<mapsto> Num 3, ''depth'' \<mapsto> Num 4],
             [''temp'' \<mapsto> Num 32, ''rpm'' \<mapsto> Num 1, ''load'' \<mapsto> Num 6, ''vibration'' \<mapsto> Num 7, ''depth'' \<mapsto> Num 8]]
     = Inr [[30, 5, 2, 3, 4, 0, 3.82], [32, 1, 6, 7, 8, 2, 57.3]] \<and>
   sequenceForEst [[30, 5, 2, 3, 4, 0, 3.82], [32, 1, 6, 7, 8, 2, 57.3]]
     = [5, 2, 3, 4, 0, 3.82, 1, 6, 7, 8, 2, 57.3] \<and>
   length (sequenceForEst [[30, 5, 2, 3, 4, 0, 3.82], [32, 1, 6, 7, 8, 2, 57.3]]) = 6 * 2"
proof -
  let ?w = "[[''temp'' \<mapsto> Num 30, ''rpm'' \<mapsto> Num 5, ''load'' \<mapsto> Num 2, ''vibration'' \<mapsto> Num 3, ''depth'' \<mapsto> Num 4],
             [''temp'' \<mapsto> Num 32, ''rpm'' \<mapsto> Num 1, ''load'' \<mapsto> Num 6, ''vibration'' \<mapsto> Num 7, ''depth'' \<mapsto> Num 8]]"
  have h: "sequence ?w = Inr [[30, 5, 2, 3, 4, 0, 3.82], [32, 1, 6, 7, 8, 2, 57.3]]"
    by (simp add: sequence_def sequence_row_def Let_def temp_of_def index_def nullish_def Math_max_def)
  from sequenceForEst_shape [OF h] show ?thesis
    using h by (simp add: sequenceForEst_def)
qed

text \<open>
  C6. The counter \<open>cycle\<close> starts at 0. A call of the generator adds exactly 1 to it and
  computes the degradation factor from the new value; after the calls for a list of draws
  the counter is the length of the list. No other handler writes it, so no run of
  handlers lowers it, and of two calls of the generator, with any handlers run between
  them, the second sees a strictly larger counter.
\<close>

theorem cycle_never_reset:
  "cycle initial_state = 0 \<and>
   snd (makeRandomDrillValues c d) = c + 1 \<and>
   snd (generate initial_cycle ds) = length ds \<and>
   rpm (fst (makeRandomDrillValues c d)) = Math_round (5000 - degradationFactor (c + 1) * 1000) \<and>
   temp (fst (makeRandomDrillValues c d))
     = toFixed (20 + random_temp d * 60 + degradationFactor (c + 1) * 10) 2 \<and>
   cycle (step s (Send d oc)) = cycle s + 1 \<and>
   cycle (step s (Start h)) = cycle s \<and> cycle (step s Stop) = cycle s \<and>
   cycle (step s (Snapshot arr)) = cycle s \<and>
   cycle s \<le> cycle (run s es) \<and>
   cycle (step s (Send d oc)) < cycle (step (run (step s (Send d oc)) es) (Send d' oc'))"
proof -
  have "cycle (step s (Send d oc)) \<le> cycle (run (step s (Send d oc)) es)" by (rule cycle_run)
  then have "cycle (step s (Send d oc)) < cycle (step (run (step s (Send d oc)) es) (Send d' oc'))"
    by (simp add: cycle_sendRandomToFirestore)
  moreover have "cycle initial_state = 0" by (simp add: initial_state_def initial_cycle_def)
  moreover have "snd (makeRandomDrillValues c d) = c + 1"
    "rpm (fst (makeRandomDrillValues c d)) = Math_round (5000 - degradationFactor (c + 1) * 1000)"
    "temp (fst (makeRandomDrillValues c d))
       = toFixed (20 + random_temp d * 60 + degradationFactor (c + 1) * 10) 2"
    by (simp_all add: makeRandomDrillValues_def Let_def)
  moreover have "snd (generate initial_cycle ds) = length ds"
    by (simp add: generate_cycle initial_cycle_def)
  ultimately show ?thesis using cycle_run [of s es] cycle_step [of s]
    by (simp add: cycle_sendRandomToFirestore del: step.simps)
qed

text \<open>
  C7. A field that is missing from a sample counts as 0: putting the number 0 in its place
  does not change the result of the builder. The builder does not throw: on every
  window, of any length, it returns one row per sample. On the empty window both
  outputs are empty.
\<close>

theorem missing_fields_are_zero:
  "(\<forall>i k. i < length w \<and> (w ! i) k = None \<longrightarrow>
      sequence (w[i := (w ! i)(k \<mapsto> Num 0)]) = sequence w) \<and>
   (\<exists>rows. sequence w = Inr rows \<and> length rows = length w) \<and>
   sequence [] = Inr [] \<and> sequenceForEst [] = []"
proof (intro conjI allI impI)
  fix i k assume a: "i < length w \<and> (w ! i) k = None"
  let ?w' = "w[i := (w ! i)(k \<mapsto> Num 0)]"
  have "feature_row ?w' j = feature_row w j" if "j < length w" for j
    by (rule feature_row_cong [OF _ that]) (simp add: field_update_missing a)
  then have "map (feature_row ?w') [0..<length w] = map (feature_row w) [0..<length w]"
    by simp
  then show "sequence ?w' = sequence w" by (simp add: sequence_eq)
next
  show "\<exists>rows. sequence w = Inr rows \<and> length rows = length w"
    by (simp add: sequence_eq)
next
  show "sequence [] = Inr []" by (simp add: sequence_def)
next
  show "sequenceForEst [] = []" by (simp add: sequenceForEst_def)
qed

theorem missing_fields_are_zero_witness:
  "sequence [[''temp'' \<mapsto> Num 30], [''temp'' \<mapsto> Num 32, ''rpm'' \<mapsto> Num 0]]
     = sequence [[''temp'' \<mapsto> Num 30], [''temp'' \<mapsto> Num 32]] \<and>
   sequence [[''temp'' \<mapsto> Num 30], [''temp'' \<mapsto> Num 32]]
     = Inr [[30, 0, 0, 0, 0, 0, 0], [32, 0, 0, 0, 0, 2, 0]]"
proof -
  let ?w = "[[''temp'' \<mapsto> Num 30], [''temp'' \<mapsto> Num 32 :: js_value]]"
  have a: "1 < length ?w \<and> (?w ! 1) ''rpm'' = None" by simp
  have "sequence (?w[1 := (?w ! 1)(''rpm'' \<mapsto> Num 0)]) = sequence ?w"
    using missing_fields_are_zero [of ?w] a by blast
  moreover have "sequence ?w = Inr [[30, 0, 0, 0, 0, 0, 0], [32, 0, 0, 0, 0, 2, 0]]"
    by (simp add: sequence_def sequence_row_def Let_def temp_of_def index_def nullish_def Math_max_def)
  ultimately show ?thesis by simp
qed

text \<open>
  C8. Stopping with no timer active does not leave the state unchanged. The handler sets
  \<open>autoSending\<close> and \<open>status\<close> outside its test of the timer: stopping in the initial
  state, where no timer is active, turns \<open>status\<close> from \<open>idle\<close> to \<open>auto-stopped\<close>.
\<close>

theorem stopAutoSend_changes_state:
  "\<not> truthy (autoRef initial_state) \<and> stopAutoSend initial_state \<noteq> initial_state \<and>
   status (stopAutoSend initial_state) = ''auto-stopped'' \<and> status initial_state = ''idle''"
  by (simp add: stopAutoSend_def initial_state_def truthy_def Let_def)

text \<open>
  C8, amended. Stopping with no timer active does not throw; it sets \<open>autoSending\<close> to
  false and \<open>status\<close> to \<open>auto-stopped\<close> and changes nothing else: the counter, the
  records, the timer reference and the running intervals stay as they are. A second stop
  changes nothing at all.
\<close>

theorem stopAutoSend_without_timer:
  assumes "\<not> truthy (autoRef s)"
  shows "stopAutoSend s = s\<lparr>autoSending := False, status := ''auto-stopped''\<rparr> \<and>
         stopAutoSend (stopAutoSend s) = stopAutoSend s"
proof -
  let ?s' = "s\<lparr>autoSending := False, status := ''auto-stopped''\<rparr>"
  have one: "stopAutoSend s = ?s'" using assms by (rule stopAutoSend_falsy)
  have "\<not> truthy (autoRef ?s')" using assms by simp
  then have "stopAutoSend ?s' = ?s'\<lparr>autoSending := False, status := ''auto-stopped''\<rparr>"
    by (rule stopAutoSend_falsy)
  then have "stopAutoSend ?s' = ?s'" by simp
  then show ?thesis using one by simp
qed

theorem stopAutoSend_without_timer_witness:
  "\<not> truthy (autoRef initial_state) \<and>
   stopAutoSend initial_state = initial_state\<lparr>autoSending := False, status := ''auto-stopped''\<rparr> \<and>
   stopAutoSend (stopAutoSend initial_state) = stopAutoSend initial_state"
proof -
  have h: "\<not> truthy (autoRef initial_state)" by (simp add: initial_state_def truthy_def)
  from stopAutoSend_without_timer [OF h] h show ?thesis by blast
qed

text \<open>
  C9. When the sample before sample \<open>i \<ge> 1\<close> has no temperature and sample \<open>i\<close> has the
  temperature \<open>t\<close>, the temperature change of row \<open>i\<close> is \<open>t\<close> itself: the missing
  temperature counts as 0.
\<close>

theorem missing_predecessor_temperature:
  assumes "sequence w = Inr rows" and "1 \<le> i" and "i < length w"
    and "(w ! (i - 1)) ''temp'' = None" and "(w ! i) ''temp'' = Some (Num t)"
  shows "rows ! i ! 5 = t"
proof -
  have r: "rows ! i = feature_row w i" using assms(1,3) by (simp add: sequence_rows(2))
  show ?thesis using assms(2,4,5) by (simp add: r feature_row_nth field_def nullish_def)
qed

theorem missing_predecessor_temperature_witness:
  "sequence [[''rpm'' \<mapsto> Num 4000], [''temp'' \<mapsto> Num 32]]
     = Inr [[0, 4000, 0, 0, 0, 0, 0], [32, 0, 0, 0, 0, 32, 0]] \<and>
   [[0, 4000, 0, 0, 0, 0, 0], [32, 0, 0, 0, 0, 32, 0 :: real]] ! 1 ! 5 = 32"
proof -
  let ?w = "[[''rpm'' \<mapsto> Num 4000], [''temp'' \<mapsto> Num 32]]"
  have h: "sequence ?w = Inr [[0, 4000, 0, 0, 0, 0, 0], [32, 0, 0, 0, 0, 32, 0]]"
    by (simp add: sequence_def sequence_row_def Let_def temp_of_def index_def nullish_def Math_max_def)
  have a: "(1::nat) \<le> 1" "1 < length ?w" "(?w ! (1 - 1)) ''temp'' = None"
    "(?w ! 1) ''temp'' = Some (Num 32)" by simp_all
  from missing_predecessor_temperature [OF h a] show ?thesis using h by simp
qed

text \<open>
  C10. The two request bodies built from the records depend on the records alone: two
  states with the same records, whatever their counter, status and timer, give the same
  full sequence and the same flattened sequence, and sending a sample, starting and
  stopping the timer do not change them.
\<close>

theorem ml_inputs_deterministic:
  "ml_inputs (s1\<lparr>records := w\<rparr>) = ml_inputs (s2\<lparr>records := w\<rparr>) \<and>
   ml_inputs (sendRandomToFirestore s d oc) = ml_inputs s \<and>
   ml_inputs (startAutoSend s h) = ml_inputs s \<and>
   ml_inputs (stopAutoSend s) = ml_inputs s"
  by (simp add: ml_inputs_def records_sendRandomToFirestore records_startAutoSend
      records_stopAutoSend)

end
